theory Spec2Isabelle
  imports Main "HOL-Library.Char_ord" "HOL-Library.Sublist"
begin

section \<open>Python values\<close>

text \<open>
  The analyzer receives a workflow that a YAML parser has turned into nested Python
  values. A dictionary is an association list in insertion order (the order in which
  \<^verbatim>\<open>keys()\<close> iterates); a Python dictionary has pairwise distinct keys, and a lookup
  returns the first entry of that key. A \<open>char\<close> is one code point below 256.
\<close>

datatype pyval =
    PNone
  | PBool bool
  | PInt int
  | PStr string
  | PList "pyval list"
  | PDict "(pyval \<times> pyval) list"

datatype error = KeyError | TypeError | AttributeError | IndexError

text \<open>Sequencing of two computations that may raise: the first exception wins.\<close>

definition bindE :: "error + 'a \<Rightarrow> ('a \<Rightarrow> error + 'b) \<Rightarrow> error + 'b" where
  "bindE m f = (case m of Inl e \<Rightarrow> Inl e | Inr x \<Rightarrow> f x)"

text \<open>\<^verbatim>\<open>a in s\<close> on two strings: \<open>a\<close> occurs in \<open>s\<close> as a contiguous piece.\<close>

fun is_substr :: "string \<Rightarrow> string \<Rightarrow> bool" where
  "is_substr a [] = (a = [])"
| "is_substr a (c # s) = (if prefix a (c # s) then True else is_substr a s)"

text \<open>
  \<^verbatim>\<open>"k" in x\<close> for a string literal \<open>k\<close>: a key test on a dictionary, an element test
  on a list, a substring test on a string, and a TypeError on a value that is not a
  container.
\<close>

fun str_in :: "string \<Rightarrow> pyval \<Rightarrow> error + bool" where
  "str_in k (PDict m) = Inr (map_of m (PStr k) \<noteq> None)"
| "str_in k (PList xs) = Inr (PStr k \<in> set xs)"
| "str_in k (PStr s) = Inr (is_substr k s)"
| "str_in k PNone = Inl TypeError"
| "str_in k (PBool b) = Inl TypeError"
| "str_in k (PInt i) = Inl TypeError"

text \<open>Indexing a sequence of length \<open>n\<close> by an integer; negative indices count from the end.\<close>

definition seq_index :: "'a list \<Rightarrow> int \<Rightarrow> error + 'a" where
  "seq_index xs i =
     (if 0 \<le> i \<and> i < int (length xs) then Inr (xs ! nat i)
      else if i < 0 \<and> - int (length xs) \<le> i then Inr (xs ! nat (int (length xs) + i))
      else Inl IndexError)"

text \<open>
  \<^verbatim>\<open>x[k]\<close>: a dictionary raises KeyError on a missing key; a list or a string accepts
  integer indices only (\<^verbatim>\<open>True\<close> and \<^verbatim>\<open>False\<close> are the integers 1 and 0); every
  other value is not subscriptable.
\<close>

fun py_getitem :: "pyval \<Rightarrow> pyval \<Rightarrow> error + pyval" where
  "py_getitem (PDict m) k = (case map_of m k of None \<Rightarrow> Inl KeyError | Some v \<Rightarrow> Inr v)"
| "py_getitem (PList xs) (PInt i) = seq_index xs i"
| "py_getitem (PList xs) (PBool b) = seq_index xs (if b then 1 else 0)"
| "py_getitem (PStr s) (PInt i) = map_sum id (\<lambda>c. PStr [c]) (seq_index s i)"
| "py_getitem (PStr s) (PBool b) = map_sum id (\<lambda>c. PStr [c]) (seq_index s (if b then 1 else 0))"
| "py_getitem x k = Inl TypeError"

text \<open>\<^verbatim>\<open>x.keys()\<close>: only a dictionary has the method.\<close>

fun py_keys :: "pyval \<Rightarrow> error + pyval list" where
  "py_keys (PDict m) = Inr (map fst m)"
| "py_keys x = Inl AttributeError"

text \<open>
  \<^verbatim>\<open>for v in x\<close>: the elements of a list, the keys of a dictionary, the one-character
  strings of a string; a TypeError on a value that is not iterable.
\<close>

fun py_iter :: "pyval \<Rightarrow> error + pyval list" where
  "py_iter (PList xs) = Inr xs"
| "py_iter (PDict m) = Inr (map fst m)"
| "py_iter (PStr s) = Inr (map (\<lambda>c. PStr [c]) s)"
| "py_iter x = Inl TypeError"

section \<open>Regular expressions\<close>

text \<open>
  The patterns of the analyzer use literals, the classes \<^verbatim>\<open>\w\<close>, \<^verbatim>\<open>\d\<close>,
  \<^verbatim>\<open>[\w-]\<close>, \<^verbatim>\<open>[a-f0-9]\<close>, the dot, concatenation, alternation, \<^verbatim>\<open>*\<close>, \<^verbatim>\<open>+\<close>,
  \<^verbatim>\<open>?\<close> and \<^verbatim>\<open>{40}\<close>. For a \<^verbatim>\<open>str\<close> pattern \<^verbatim>\<open>\w\<close> is every alphanumeric
  code point and the underscore, \<^verbatim>\<open>\d\<close> every decimal digit, and the dot every
  character but the newline.
\<close>

datatype citem = Ch char | Rng char char | WordCh | DigitCh

datatype regex =
    Fail
  | Eps
  | Sym "citem list"
  | Dot
  | Seq regex regex
  | Alt regex regex
  | Star regex

definition is_digit :: "char \<Rightarrow> bool" where
  "is_digit c = (CHR ''0'' \<le> c \<and> c \<le> CHR ''9'')"

definition is_word :: "char \<Rightarrow> bool" where
  "is_word c =
     (is_digit c \<or> (CHR ''A'' \<le> c \<and> c \<le> CHR ''Z'') \<or> c = CHR ''_''
      \<or> (CHR ''a'' \<le> c \<and> c \<le> CHR ''z'')
      \<or> c \<in> set [CHR 0xAA, CHR 0xB2, CHR 0xB3, CHR 0xB5, CHR 0xB9, CHR 0xBA,
                   CHR 0xBC, CHR 0xBD, CHR 0xBE]
      \<or> (CHR 0xC0 \<le> c \<and> c \<le> CHR 0xD6) \<or> (CHR 0xD8 \<le> c \<and> c \<le> CHR 0xF6)
      \<or> CHR 0xF8 \<le> c)"

fun in_item :: "char \<Rightarrow> citem \<Rightarrow> bool" where
  "in_item c (Ch d) = (c = d)"
| "in_item c (Rng a b) = (a \<le> c \<and> c \<le> b)"
| "in_item c WordCh = is_word c"
| "in_item c DigitCh = is_digit c"

definition in_class :: "char \<Rightarrow> citem list \<Rightarrow> bool" where
  "in_class c cs = list_ex (in_item c) cs"

text \<open>The strings a pattern matches in full: the meaning of a pattern.\<close>

inductive_set star :: "string set \<Rightarrow> string set" for A :: "string set" where
  star_empty: "[] \<in> star A"
| star_more: "u \<in> A \<Longrightarrow> v \<in> star A \<Longrightarrow> u @ v \<in> star A"

fun lang :: "regex \<Rightarrow> string set" where
  "lang Fail = {}"
| "lang Eps = {[]}"
| "lang (Sym cs) = {[c] | c. in_class c cs}"
| "lang Dot = {[c] | c. c \<noteq> CHR 0x0A}"
| "lang (Seq r s) = {u @ v | u v. u \<in> lang r \<and> v \<in> lang s}"
| "lang (Alt r s) = lang r \<union> lang s"
| "lang (Star r) = star (lang r)"

text \<open>The pattern constructors of the concrete syntax.\<close>

definition lit :: "string \<Rightarrow> regex" where
  "lit s = foldr (\<lambda>c r. Seq (Sym [Ch c]) r) s Eps"

definition plus :: "regex \<Rightarrow> regex" where
  "plus r = Seq r (Star r)"

definition opt :: "regex \<Rightarrow> regex" where
  "opt r = Alt r Eps"

fun times :: "nat \<Rightarrow> regex \<Rightarrow> regex" where
  "times 0 r = Eps"
| "times (Suc n) r = Seq r (times n r)"

text \<open>
  Matching by derivatives. \<open>seq\<close> and \<open>alt\<close> build a concatenation and an alternation
  and drop the parts that match nothing.
\<close>

fun nullable :: "regex \<Rightarrow> bool" where
  "nullable Fail = False"
| "nullable Eps = True"
| "nullable (Sym cs) = False"
| "nullable Dot = False"
| "nullable (Seq r s) = (nullable r \<and> nullable s)"
| "nullable (Alt r s) = (nullable r \<or> nullable s)"
| "nullable (Star r) = True"

definition seq :: "regex \<Rightarrow> regex \<Rightarrow> regex" where
  "seq r s = (if r = Fail \<or> s = Fail then Fail else if r = Eps then s else Seq r s)"

definition alt :: "regex \<Rightarrow> regex \<Rightarrow> regex" where
  "alt r s = (if r = Fail then s else if s = Fail then r else Alt r s)"

fun deriv :: "char \<Rightarrow> regex \<Rightarrow> regex" where
  "deriv c Fail = Fail"
| "deriv c Eps = Fail"
| "deriv c (Sym cs) = (if in_class c cs then Eps else Fail)"
| "deriv c Dot = (if c \<noteq> CHR 0x0A then Eps else Fail)"
| "deriv c (Seq r s) =
     (if nullable r then alt (seq (deriv c r) s) (deriv c s) else seq (deriv c r) s)"
| "deriv c (Alt r s) = alt (deriv c r) (deriv c s)"
| "deriv c (Star r) = seq (deriv c r) (Star r)"

text \<open>\<^verbatim>\<open>re.match\<close>: does the pattern match some piece that starts the string?\<close>

fun match_here :: "regex \<Rightarrow> string \<Rightarrow> bool" where
  "match_here r [] = nullable r"
| "match_here r (c # s) =
     (if nullable r then True else if r = Fail then False else match_here (deriv c r) s)"

text \<open>\<^verbatim>\<open>re.search\<close>: does the pattern match at some position of the string?\<close>

fun search :: "regex \<Rightarrow> string \<Rightarrow> bool" where
  "search r [] = match_here r []"
| "search r (c # s) = (if match_here r (c # s) then True else search r s)"

text \<open>\<^verbatim>\<open>search(pattern, x)\<close> raises a TypeError when \<open>x\<close> is not a string.\<close>

fun re_search :: "regex \<Rightarrow> pyval \<Rightarrow> error + bool" where
  "re_search r (PStr s) = Inr (search r s)"
| "re_search r x = Inl TypeError"

text \<open>A sequence of patterns, one after the other.\<close>

definition seqs :: "regex list \<Rightarrow> regex" where
  "seqs rs = foldr Seq rs Eps"

text \<open>The tail \<^verbatim>\<open>v\d+(\.\d+)?(\.\d+)?\<close> that three of the patterns share.\<close>

definition VERSION_TAG :: regex where
  "VERSION_TAG =
     seqs [lit ''v'', plus (Sym [DigitCh]),
           opt (seqs [lit ''.'', plus (Sym [DigitCh])]),
           opt (seqs [lit ''.'', plus (Sym [DigitCh])])]"

text \<open>\<^verbatim>\<open>[a-f0-9]{40}\<close>\<close>

definition SHA_HASH :: regex where
  "SHA_HASH = times 40 (Sym [Rng CHR ''a'' CHR ''f'', Rng CHR ''0'' CHR ''9''])"

text \<open>\<^verbatim>\<open>([\w-]+)\/([\w-]+)@v\d+(\.\d+)?(\.\d+)?\<close>\<close>

definition ACTION_WITH_VERSION_REGEX :: regex where
  "ACTION_WITH_VERSION_REGEX =
     seqs [plus (Sym [WordCh, Ch CHR ''-'']), lit ''/'', plus (Sym [WordCh, Ch CHR ''-'']),
           lit ''@'', VERSION_TAG]"

text \<open>\<^verbatim>\<open>\$\{\{.*github.+\}\}\<close>\<close>

definition DANGEROUS_GITHUB_CONTEXT_VARIABLE_REGEX :: regex where
  "DANGEROUS_GITHUB_CONTEXT_VARIABLE_REGEX =
     seqs [lit ''${{'', Star Dot, lit ''github'', plus Dot, lit ''}}'']"

text \<open>\<^verbatim>\<open>actions\/cache@(v\d+(\.\d+)?(\.\d+)?|[a-f0-9]{40})\<close>\<close>

definition CACHE_ACTION_REGEX :: regex where
  "CACHE_ACTION_REGEX = seqs [lit ''actions/cache@'', Alt VERSION_TAG SHA_HASH]"

text \<open>\<^verbatim>\<open>aws\-actions\/configure\-aws\-credentials@(v\d+(\.\d+)?(\.\d+)?|[a-f0-9]{40})\<close>\<close>

definition CONFIGURE_AWS_CREDS_ACTION_REGEX :: regex where
  "CONFIGURE_AWS_CREDS_ACTION_REGEX =
     seqs [lit ''aws-actions/configure-aws-credentials@'', Alt VERSION_TAG SHA_HASH]"

text \<open>\<^verbatim>\<open>gh pr (review.*--approve|create.*)\<close>\<close>

definition GH_CLI_PR_APPROVAL_REGEX :: regex where
  "GH_CLI_PR_APPROVAL_REGEX =
     seqs [lit ''gh pr '',
           Alt (seqs [lit ''review'', Star Dot, lit ''--approve''])
               (seqs [lit ''create'', Star Dot])]"

section \<open>Loops\<close>

text \<open>
  The body of a \<^verbatim>\<open>for\<close> loop ends by falling through to the next element
  (\<open>Continue\<close>), by \<^verbatim>\<open>break\<close> or by \<^verbatim>\<open>return\<close>; the state it hands on is the
  local variable the loop updates. A loop left by \<^verbatim>\<open>break\<close> hands on to the statement
  after it, as a loop that ran to its end does; a \<^verbatim>\<open>return\<close> leaves every enclosing loop.
\<close>

datatype 's ctl = Continue 's | Break 's | Return bool

fun for_loop :: "('a \<Rightarrow> 's \<Rightarrow> error + 's ctl) \<Rightarrow> 'a list \<Rightarrow> 's \<Rightarrow> error + 's ctl" where
  "for_loop body [] s = Inr (Continue s)"
| "for_loop body (x # xs) s =
     (case body x s of
        Inl e \<Rightarrow> Inl e
      | Inr (Continue s') \<Rightarrow> for_loop body xs s'
      | Inr (Break s') \<Rightarrow> Inr (Continue s')
      | Inr (Return v) \<Rightarrow> Inr (Return v))"

text \<open>The closing \<^verbatim>\<open>return passed\<close> of a check.\<close>

definition return_passed :: "error + bool ctl \<Rightarrow> error + bool" where
  "return_passed m =
     bindE m (\<lambda>r. case r of Continue p \<Rightarrow> Inr p | Break p \<Rightarrow> Inr p | Return v \<Rightarrow> Inr v)"

section \<open>The analyzer\<close>

text \<open>
  The fields of \<^verbatim>\<open>Analyzer\<close>. \<^verbatim>\<open>run_checks\<close> sets \<open>action\<close> and \<open>jobs\<close> before any check
  runs. Printing has no result; what a verbose message formats can raise, and that is kept.
\<close>

record analyzer =
  ignore_warnings :: bool
  ignore_checks :: "string list"
  verbose :: bool
  action :: pyval
  jobs :: pyval

datatype level = FAIL | WARN

definition checks :: "(string \<times> level) list" where
  "checks =
     [(''_check_for_3p_actions_without_hash'', FAIL),
      (''_check_for_allow_unsecure_commands'', FAIL),
      (''_check_for_cache_action_usage'', WARN),
      (''_check_for_dangerous_write_permissions'', FAIL),
      (''_check_for_inline_script'', WARN),
      (''_check_for_pull_request_target'', FAIL),
      (''_check_for_script_injection'', FAIL),
      (''_check_for_self_hosted_runners'', WARN),
      (''_check_for_aws_configure_credentials_non_oidc'', WARN),
      (''_check_for_pull_request_create_or_approve'', FAIL)]"

text \<open>A message printed \<^verbatim>\<open>if self.verbose\<close>: its arguments are evaluated, nothing else.\<close>

definition verbose_print :: "analyzer \<Rightarrow> error + 'a \<Rightarrow> error + unit" where
  "verbose_print self m = (if verbose self then bindE m (\<lambda>_. Inr ()) else Inr ())"

text \<open>\<^verbatim>\<open>for job in self.jobs.keys(): ...\<close> with \<open>passed\<close> starting at \<^verbatim>\<open>True\<close>.\<close>

definition for_jobs :: "analyzer \<Rightarrow> (pyval \<Rightarrow> bool \<Rightarrow> error + bool ctl) \<Rightarrow> error + bool ctl" where
  "for_jobs self body = bindE (py_keys (jobs self)) (\<lambda>ks. for_loop body ks True)"

text \<open>\<^verbatim>\<open>steps = self.jobs[job]["steps"]\<close> followed by \<^verbatim>\<open>for step in steps: ...\<close>\<close>

definition for_steps ::
  "analyzer \<Rightarrow> (pyval \<Rightarrow> bool \<Rightarrow> error + bool ctl) \<Rightarrow> pyval \<Rightarrow> bool \<Rightarrow> error + bool ctl" where
  "for_steps self body job passed =
     bindE (py_getitem (jobs self) job) (\<lambda>j.
     bindE (py_getitem j (PStr ''steps'')) (\<lambda>steps.
     bindE (py_iter steps) (\<lambda>ss. for_loop body ss passed)))"

subsection \<open>The precondition gate\<close>

fun all_in :: "string list \<Rightarrow> pyval \<Rightarrow> error + bool" where
  "all_in [] x = Inr True"
| "all_in (k # ks) x = bindE (str_in k x) (\<lambda>b. if b then all_in ks x else Inr False)"

text \<open>
  \<^verbatim>\<open>_action_has_required_elements\<close>: \<open>passed\<close> is \<^verbatim>\<open>False\<close> when one of the three keys is
  missing, and the loop over the jobs stops at the first job with no \<^verbatim>\<open>steps\<close>.
\<close>

definition action_has_required_elements :: "analyzer \<Rightarrow> error + bool" where
  "action_has_required_elements self =
     bindE (all_in [''name'', ''on'', ''jobs''] (action self)) (\<lambda>has_keys.
     bindE (py_keys (jobs self)) (\<lambda>ks.
     return_passed
       (for_loop
          (\<lambda>job passed.
             bindE (py_getitem (jobs self) job) (\<lambda>j.
             bindE (str_in ''steps'' j) (\<lambda>has_steps.
               if \<not> has_steps then Inr (Break False) else Inr (Continue passed))))
          ks has_keys)))"

subsection \<open>The checks\<close>

text \<open>
  \<^verbatim>\<open>_check_for_3p_actions_without_hash\<close>: the \<^verbatim>\<open>break\<close> leaves the loop over the steps of
  one job; the loop over the jobs goes on.
\<close>

definition check_for_3p_actions_without_hash :: "analyzer \<Rightarrow> error + bool" where
  "check_for_3p_actions_without_hash self =
     return_passed (for_jobs self (for_steps self
       (\<lambda>step passed.
          bindE (str_in ''uses'' step) (\<lambda>has_uses.
            if has_uses then
              bindE (py_getitem step (PStr ''uses'')) (\<lambda>uses.
              bindE (re_search ACTION_WITH_VERSION_REGEX uses) (\<lambda>found.
                if found then Inr (Break False) else Inr (Continue passed)))
            else Inr (Continue passed)))))"

text \<open>\<^verbatim>\<open>_check_for_inline_script\<close>: every step with a \<^verbatim>\<open>run\<close> is visited; no early exit.\<close>

definition check_for_inline_script :: "analyzer \<Rightarrow> error + bool" where
  "check_for_inline_script self =
     return_passed (for_jobs self (for_steps self
       (\<lambda>step passed.
          bindE (str_in ''run'' step) (\<lambda>has_run.
            if has_run then
              bindE (verbose_print self
                       (bindE (str_in ''name'' step) (\<lambda>has_name.
                          if has_name then py_getitem step (PStr ''name'') else Inr PNone)))
                (\<lambda>_. Inr (Continue False))
            else Inr (Continue passed)))))"

text \<open>\<^verbatim>\<open>_check_for_script_injection\<close>\<close>

definition check_for_script_injection :: "analyzer \<Rightarrow> error + bool" where
  "check_for_script_injection self =
     return_passed (for_jobs self (for_steps self
       (\<lambda>step passed.
          bindE (str_in ''run'' step) (\<lambda>has_run.
            if has_run then
              bindE (py_getitem step (PStr ''run'')) (\<lambda>script.
              bindE (re_search DANGEROUS_GITHUB_CONTEXT_VARIABLE_REGEX script) (\<lambda>variable.
                if variable then Inr (Continue False) else Inr (Continue passed)))
            else Inr (Continue passed)))))"

text \<open>\<^verbatim>\<open>_check_for_allow_unsecure_commands\<close>: returns at the first match.\<close>

definition check_for_allow_unsecure_commands :: "analyzer \<Rightarrow> error + bool" where
  "check_for_allow_unsecure_commands self =
     return_passed (for_jobs self (for_steps self
       (\<lambda>step passed.
          bindE (str_in ''env'' step) (\<lambda>has_env.
          bindE (if has_env then
                   bindE (py_getitem step (PStr ''env''))
                     (str_in ''ACTIONS_ALLOW_UNSECURE_COMMANDS'')
                 else Inr False) (\<lambda>found.
            if found then
              bindE (verbose_print self (py_getitem step (PStr ''name'')))
                (\<lambda>_. Inr (Return False))
            else Inr (Continue passed))))))"

text \<open>\<^verbatim>\<open>_check_for_pull_request_target\<close>: a case on the type of \<^verbatim>\<open>self.action["on"]\<close>.\<close>

definition check_for_pull_request_target :: "analyzer \<Rightarrow> error + bool" where
  "check_for_pull_request_target self =
     bindE (py_getitem (action self) (PStr ''on'')) (\<lambda>event_triggers.
       case event_triggers of
         PList xs \<Rightarrow>
           bindE (str_in ''pull_request_target'' event_triggers) (\<lambda>found. Inr (\<not> found))
       | PDict m \<Rightarrow>
           bindE (str_in ''pull_request_target'' event_triggers) (\<lambda>found. Inr (\<not> found))
       | PStr s \<Rightarrow> Inr (\<not> (event_triggers = PStr ''pull_request_target''))
       | _ \<Rightarrow> Inr True)"

text \<open>\<^verbatim>\<open>_check_for_cache_action_usage\<close>\<close>

definition check_for_cache_action_usage :: "analyzer \<Rightarrow> error + bool" where
  "check_for_cache_action_usage self =
     return_passed (for_jobs self (for_steps self
       (\<lambda>step passed.
          bindE (str_in ''uses'' step) (\<lambda>has_uses.
            if has_uses then
              bindE (py_getitem step (PStr ''uses'')) (\<lambda>uses.
              bindE (re_search CACHE_ACTION_REGEX uses) (\<lambda>found.
                if found then Inr (Continue False) else Inr (Continue passed)))
            else Inr (Continue passed)))))"

definition dangerous_scopes :: "string list" where
  "dangerous_scopes = [''contents'', ''deployments'', ''packages'', ''actions'']"

text \<open>
  \<^verbatim>\<open>for scope in dangerous_scopes:\<close> with the body
  \<^verbatim>\<open>if scope in permissions and permissions[scope] == "write": passed = False; return passed\<close>
\<close>

definition for_scopes :: "pyval \<Rightarrow> bool \<Rightarrow> error + bool ctl" where
  "for_scopes permissions =
     for_loop
       (\<lambda>scope passed.
          bindE (str_in scope permissions) (\<lambda>has_scope.
          bindE (if has_scope then
                   bindE (py_getitem permissions (PStr scope)) (\<lambda>v. Inr (v = PStr ''write''))
                 else Inr False) (\<lambda>is_write.
            if is_write then Inr (Return False) else Inr (Continue passed))))
       dangerous_scopes"

text \<open>
  \<^verbatim>\<open>_check_for_dangerous_write_permissions\<close>: first the permissions of the document,
  which return at once on \<^verbatim>\<open>write-all\<close>; then the permissions of each job, where
  \<^verbatim>\<open>write-all\<close> sets \<open>passed\<close> and the loop goes on.
\<close>

definition check_for_dangerous_write_permissions :: "analyzer \<Rightarrow> error + bool" where
  "check_for_dangerous_write_permissions self =
     bindE (str_in ''permissions'' (action self)) (\<lambda>has_permissions.
     bindE (if has_permissions then
              bindE (py_getitem (action self) (PStr ''permissions'')) (\<lambda>permissions.
                if permissions = PStr ''write-all'' then Inr (Return False)
                else for_scopes permissions True)
            else Inr (Continue True)) (\<lambda>r.
       case r of
         Return v \<Rightarrow> Inr v
       | _ \<Rightarrow>
           return_passed (for_jobs self
             (\<lambda>job passed.
                bindE (py_getitem (jobs self) job) (\<lambda>j.
                bindE (str_in ''permissions'' j) (\<lambda>has_job_permissions.
                  if has_job_permissions then
                    bindE (py_getitem j (PStr ''permissions'')) (\<lambda>permissions.
                      for_scopes permissions
                        (if permissions = PStr ''write-all'' then False else passed))
                  else Inr (Continue passed)))))))"

definition default_runners :: "pyval list" where
  "default_runners =
     map PStr
       [''windows-latest'', ''windows-2022'', ''windows-2019'', ''ubuntu-latest'',
        ''ubuntu-22.04'', ''ubuntu-20.04'', ''macos-13'', ''macos-13-xl'', ''macos-latest'',
        ''macos-12'', ''macos-latest-xl'', ''macos-12-xl'', ''macos-11'']"

text \<open>\<^verbatim>\<open>any(runner not in default_runners for runner in xs)\<close>\<close>

definition any_not_default :: "pyval list \<Rightarrow> bool" where
  "any_not_default xs = list_ex (\<lambda>runner. runner \<notin> set default_runners) xs"

text \<open>
  \<^verbatim>\<open>_check_for_self_hosted_runners\<close>: the runners of the matrix first, then \<^verbatim>\<open>runs-on\<close>
  by its type; a list returns, the other shapes leave the loop by \<^verbatim>\<open>break\<close>.
\<close>

definition check_for_self_hosted_runners :: "analyzer \<Rightarrow> error + bool" where
  "check_for_self_hosted_runners self =
     return_passed (for_jobs self
       (\<lambda>job passed.
          bindE (py_getitem (jobs self) job) (\<lambda>j.
          bindE (str_in ''strategy'' j) (\<lambda>has_strategy.
          bindE (if has_strategy then
                   bindE (py_getitem j (PStr ''strategy'')) (str_in ''matrix'')
                 else Inr False) (\<lambda>has_matrix.
          bindE (if has_matrix then
                   bindE (py_getitem j (PStr ''strategy'')) (\<lambda>strategy.
                   bindE (py_getitem strategy (PStr ''matrix'')) (\<lambda>matrix.
                   bindE (str_in ''runner'' matrix) (\<lambda>has_runner.
                     if has_runner then
                       bindE (py_getitem matrix (PStr ''runner'')) (\<lambda>runner.
                         case runner of
                           PList xs \<Rightarrow> Inr (any_not_default xs)
                         | _ \<Rightarrow> Inr False)
                     else Inr False)))
                 else Inr False) (\<lambda>matrix_runner_not_default.
            if matrix_runner_not_default then Inr (Break False)
            else
              bindE (str_in ''runs-on'' j) (\<lambda>has_runs_on.
                if has_runs_on then
                  bindE (py_getitem j (PStr ''runs-on'')) (\<lambda>runs_on.
                    case runs_on of
                      PList xs \<Rightarrow>
                        if any_not_default xs then Inr (Return False)
                        else Inr (Continue passed)
                    | PDict m \<Rightarrow>
                        bindE (str_in ''group'' runs_on) (\<lambda>has_group.
                          if has_group then
                            bindE (py_getitem runs_on (PStr ''group'')) (\<lambda>g.
                              if g \<notin> set default_runners then Inr (Break False)
                              else Inr (Continue passed))
                          else Inr (Continue passed))
                    | PStr s \<Rightarrow>
                        if runs_on \<notin> set default_runners then Inr (Break False)
                        else Inr (Continue passed)
                    | _ \<Rightarrow> Inr (Continue passed))
                else Inr (Continue passed))))))))"

definition non_oidc_inputs :: "pyval list" where
  "non_oidc_inputs = [PStr ''aws-access-key-id'', PStr ''web-identity-token-file'']"

text \<open>
  \<^verbatim>\<open>_check_for_aws_configure_credentials_non_oidc\<close>: \<^verbatim>\<open>step["with"]\<close> is read with no
  test for the key; the test on the inputs guards the verbose message only, and
  \<^verbatim>\<open>if passed: passed = False\<close> follows it at the level of \<^verbatim>\<open>if action:\<close>.
\<close>

definition check_for_aws_configure_credentials_non_oidc :: "analyzer \<Rightarrow> error + bool" where
  "check_for_aws_configure_credentials_non_oidc self =
     return_passed (for_jobs self (for_steps self
       (\<lambda>step passed.
          bindE (str_in ''uses'' step) (\<lambda>has_uses.
            if has_uses then
              bindE (py_getitem step (PStr ''uses'')) (\<lambda>uses.
              bindE (re_search CONFIGURE_AWS_CREDS_ACTION_REGEX uses) (\<lambda>found.
                if found then
                  bindE (py_getitem step (PStr ''with'')) (\<lambda>inputs.
                  bindE (py_iter inputs) (\<lambda>names.
                  bindE (if list_ex (\<lambda>input. input \<in> set non_oidc_inputs) names then
                           verbose_print self (py_getitem step (PStr ''name''))
                         else Inr ()) (\<lambda>_.
                    Inr (Continue (if passed then False else passed)))))
                else Inr (Continue passed)))
            else Inr (Continue passed)))))"

text \<open>
  \<^verbatim>\<open>_check_for_pull_request_create_or_approve\<close>: the loop is over \<^verbatim>\<open>self.jobs\<close> itself,
  not over its \<^verbatim>\<open>keys()\<close>.
\<close>

definition check_for_pull_request_create_or_approve :: "analyzer \<Rightarrow> error + bool" where
  "check_for_pull_request_create_or_approve self =
     return_passed
       (bindE (py_iter (jobs self)) (\<lambda>ks.
          for_loop
            (for_steps self
               (\<lambda>step passed.
                  bindE (str_in ''run'' step) (\<lambda>has_run.
                    if has_run then
                      bindE (py_getitem step (PStr ''run'')) (\<lambda>script.
                      bindE (re_search GH_CLI_PR_APPROVAL_REGEX script) (\<lambda>found.
                        if found then
                          bindE (verbose_print self (py_getitem step (PStr ''name'')))
                            (\<lambda>_. Inr (Continue False))
                        else Inr (Continue passed)))
                    else Inr (Continue passed))))
            ks True))"

subsection \<open>Running the checks\<close>

text \<open>\<^verbatim>\<open>get_checks\<close>: the keys of the registry, in its order.\<close>

definition get_checks :: "string list" where
  "get_checks = map fst checks"

text \<open>\<^verbatim>\<open>Analyzer.__dict__\<close>: the check methods by name.\<close>

definition methods :: "(string \<times> (analyzer \<Rightarrow> error + bool)) list" where
  "methods =
     [(''_check_for_3p_actions_without_hash'', check_for_3p_actions_without_hash),
      (''_check_for_inline_script'', check_for_inline_script),
      (''_check_for_script_injection'', check_for_script_injection),
      (''_check_for_allow_unsecure_commands'', check_for_allow_unsecure_commands),
      (''_check_for_pull_request_target'', check_for_pull_request_target),
      (''_check_for_cache_action_usage'', check_for_cache_action_usage),
      (''_check_for_dangerous_write_permissions'', check_for_dangerous_write_permissions),
      (''_check_for_self_hosted_runners'', check_for_self_hosted_runners),
      (''_check_for_aws_configure_credentials_non_oidc'',
         check_for_aws_configure_credentials_non_oidc),
      (''_check_for_pull_request_create_or_approve'',
         check_for_pull_request_create_or_approve)]"

definition lookup :: "('k \<times> 'v) list \<Rightarrow> 'k \<Rightarrow> error + 'v" where
  "lookup d k = (case map_of d k of None \<Rightarrow> Inl KeyError | Some v \<Rightarrow> Inr v)"

text \<open>
  One round of the loop over \<^verbatim>\<open>self.checks.keys()\<close>; the state is \<open>passed_all_checks\<close>
  and \<open>fail_checks\<close>.
\<close>

definition run_check ::
  "analyzer \<Rightarrow> string \<Rightarrow> bool \<times> string list \<Rightarrow> error + (bool \<times> string list) ctl" where
  "run_check self check st =
     bindE (if ignore_warnings self then
              bindE (lookup checks check) (\<lambda>l. Inr (l = WARN))
            else Inr False) (\<lambda>is_ignored_warning.
       if is_ignored_warning then Inr (Continue st)
       else if tl check \<in> set (ignore_checks self) then Inr (Continue st)
       else
         bindE (lookup methods check) (\<lambda>method.
         bindE (method self) (\<lambda>ok.
           if \<not> ok then Inr (Continue (False, snd st @ [check]))
           else Inr (Continue st))))"

text \<open>
  \<^verbatim>\<open>run_checks\<close> returns \<open>passed_all_checks\<close>; the model returns it together with
  \<open>fail_checks\<close>, the checks whose failure is printed.
\<close>

definition run_checks :: "analyzer \<Rightarrow> pyval \<Rightarrow> error + bool \<times> string list" where
  "run_checks self0 doc =
     bindE (py_getitem doc (PStr ''jobs'')) (\<lambda>js.
       let self = self0\<lparr>action := doc, jobs := js\<rparr> in
       bindE (action_has_required_elements self) (\<lambda>ok.
         if ok then
           bindE (for_loop (run_check self) (map fst checks) (True, [])) (\<lambda>r.
             case r of Continue st \<Rightarrow> Inr st | Break st \<Rightarrow> Inr st | Return v \<Rightarrow> Inr (v, []))
         else Inr (True, [])))"

text \<open>
  \<^verbatim>\<open>__init__\<close>: \<open>action\<close> starts as the empty dictionary; \<open>jobs\<close> has no value before
  \<^verbatim>\<open>run_checks\<close> assigns it.
\<close>

definition init :: "string list \<Rightarrow> bool \<Rightarrow> bool \<Rightarrow> analyzer" where
  "init ignore_checks' ignore_warnings' verbose' =
     \<lparr>ignore_warnings = ignore_warnings', ignore_checks = ignore_checks',
      verbose = verbose', action = PDict [], jobs = PNone\<rparr>"

section \<open>Workflow documents\<close>

text \<open>
  The shape of a workflow: \<open>jobs\<close> is a mapping from job ids to jobs, a job is a mapping
  whose \<open>steps\<close> is a sequence of steps. \<open>jobs_steps_all P js\<close> holds when \<open>js\<close> has this
  shape and every step of every job satisfies \<open>P\<close>.
\<close>

fun job_steps_all :: "(pyval \<Rightarrow> bool) \<Rightarrow> pyval \<Rightarrow> bool" where
  "job_steps_all P (PDict jd) =
     (case map_of jd (PStr ''steps'') of
        Some (PList steps) \<Rightarrow> list_all P steps
      | _ \<Rightarrow> False)"
| "job_steps_all P _ = False"

fun jobs_steps_all :: "(pyval \<Rightarrow> bool) \<Rightarrow> pyval \<Rightarrow> bool" where
  "jobs_steps_all P (PDict m) = list_all (\<lambda>kj. job_steps_all P (snd kj)) m"
| "jobs_steps_all P _ = False"

text \<open>
  An action reference pinned by a commit: the text after the first \<^verbatim>\<open>@\<close> is 40
  hexadecimal digits. A step is pinned when it is a mapping whose \<open>uses\<close>, if it has one,
  is such a reference.
\<close>

definition is_hex :: "char \<Rightarrow> bool" where
  "is_hex c =
     (is_digit c \<or> (CHR ''a'' \<le> c \<and> c \<le> CHR ''f'') \<or> (CHR ''A'' \<le> c \<and> c \<le> CHR ''F''))"

definition sha_pinned :: "string \<Rightarrow> bool" where
  "sha_pinned u =
     (case dropWhile (\<lambda>c. c \<noteq> CHR ''@'') u of
        [] \<Rightarrow> False
      | a # ref \<Rightarrow> length ref = 40 \<and> list_all is_hex ref)"

fun step_uses_pinned :: "pyval \<Rightarrow> bool" where
  "step_uses_pinned (PDict sd) =
     (case map_of sd (PStr ''uses'') of
        None \<Rightarrow> True
      | Some (PStr u) \<Rightarrow> sha_pinned u
      | Some _ \<Rightarrow> False)"
| "step_uses_pinned _ = False"



subsection \<open>Example workflows\<close>

text \<open>A job that checks out by commit hash and runs a script.\<close>

definition script_jobs :: pyval where
  "script_jobs =
     PDict [(PStr ''build'', PDict
       [(PStr ''runs-on'', PStr ''ubuntu-latest''),
        (PStr ''steps'', PList
          [PDict [(PStr ''uses'',
                   PStr ''actions/checkout@8f4b7f84864484a7bf31766abe9204da3cbe65b3'')],
           PDict [(PStr ''name'', PStr ''compile''), (PStr ''run'', PStr ''make'')]])])]"

definition script_workflow :: pyval where
  "script_workflow =
     PDict [(PStr ''name'', PStr ''build''), (PStr ''on'', PStr ''push''),
            (PStr ''jobs'', script_jobs)]"

text \<open>A workflow with no \<open>jobs\<close>.\<close>

definition no_jobs_workflow :: pyval where
  "no_jobs_workflow = PDict [(PStr ''name'', PStr ''build''), (PStr ''on'', PStr ''push'')]"

text \<open>
  A job that configures AWS credentials through OIDC: a role to assume and a region, no
  access key and no token file.
\<close>

definition oidc_jobs :: pyval where
  "oidc_jobs =
     PDict [(PStr ''deploy'', PDict
       [(PStr ''runs-on'', PStr ''ubuntu-latest''),
        (PStr ''steps'', PList
          [PDict [(PStr ''name'', PStr ''credentials''),
                  (PStr ''uses'', PStr
                    ''aws-actions/configure-aws-credentials@e3dd6a429d7300a6a4c196c26e071d42e0343502''),
                  (PStr ''with'', PDict
                    [(PStr ''role-to-assume'', PStr ''arn:aws:iam::123456789012:role/deploy''),
                     (PStr ''aws-region'', PStr ''eu-west-1'')])]])])]"

definition oidc_workflow :: pyval where
  "oidc_workflow =
     PDict [(PStr ''name'', PStr ''deploy''), (PStr ''on'', PStr ''push''),
            (PStr ''jobs'', oidc_jobs)]"

text \<open>The same step with no \<open>with\<close> at all.\<close>

definition no_with_jobs :: pyval where
  "no_with_jobs =
     PDict [(PStr ''deploy'', PDict
       [(PStr ''runs-on'', PStr ''ubuntu-latest''),
        (PStr ''steps'', PList
          [PDict [(PStr ''name'', PStr ''credentials''),
                  (PStr ''uses'', PStr
                    ''aws-actions/configure-aws-credentials@e3dd6a429d7300a6a4c196c26e071d42e0343502'')]])])]"

definition no_with_workflow :: pyval where
  "no_with_workflow =
     PDict [(PStr ''name'', PStr ''deploy''), (PStr ''on'', PStr ''push''),
            (PStr ''jobs'', no_with_jobs)]"

text \<open>A workflow triggered by \<open>pull_request_target\<close>, given as a mapping.\<close>

definition labeler_entries :: "(pyval \<times> pyval) list" where
  "labeler_entries =
     [(PStr ''name'', PStr ''label''),
      (PStr ''on'', PDict [(PStr ''pull_request_target'',
                            PDict [(PStr ''types'', PList [PStr ''opened''])])]),
      (PStr ''jobs'', script_jobs)]"

text \<open>A workflow that grants write access to every scope.\<close>

definition write_all_entries :: "(pyval \<times> pyval) list" where
  "write_all_entries =
     [(PStr ''name'', PStr ''release''), (PStr ''on'', PStr ''push''),
      (PStr ''permissions'', PStr ''write-all''), (PStr ''jobs'', script_jobs)]"



section \<open>Matching is membership in the language of the pattern\<close>

lemma bindE_simps [simp]:
  "bindE (Inl e) f = Inl e"
  "bindE (Inr x) f = f x"
  by (simp_all add: bindE_def)

lemma nullable_iff: "nullable r \<longleftrightarrow> [] \<in> lang r"
  by (induction r) (auto intro: star.intros)

lemma lang_seq [simp]: "lang (seq r s) = lang (Seq r s)"
  by (auto simp: seq_def)

lemma lang_alt [simp]: "lang (alt r s) = lang (Alt r s)"
  by (auto simp: alt_def)

lemma star_cons_split:
  assumes "x \<in> star A" and "x = c # w"
  shows "\<exists>u v. w = u @ v \<and> c # u \<in> A \<and> v \<in> star A"
  using assms
proof (induction arbitrary: w rule: star.induct)
  case star_empty
  then show ?case by simp
next
  case (star_more u v)
  show ?case
  proof (cases u)
    case Nil
    with star_more show ?thesis by simp
  next
    case (Cons d u')
    with star_more.prems have "d = c" and "w = u' @ v" by simp_all
    with Cons star_more.hyps show ?thesis by blast
  qed
qed

lemma star_cons_iff:
  "c # w \<in> star A \<longleftrightarrow> (\<exists>u v. w = u @ v \<and> c # u \<in> A \<and> v \<in> star A)"
proof
  assume "c # w \<in> star A"
  then show "\<exists>u v. w = u @ v \<and> c # u \<in> A \<and> v \<in> star A"
    by (rule star_cons_split) simp
next
  assume "\<exists>u v. w = u @ v \<and> c # u \<in> A \<and> v \<in> star A"
  then obtain u v where "w = u @ v" "c # u \<in> A" "v \<in> star A" by blast
  then have "(c # u) @ v \<in> star A" by (intro star.star_more)
  with \<open>w = u @ v\<close> show "c # w \<in> star A" by simp
qed

lemma lang_deriv: "lang (deriv c r) = {w. c # w \<in> lang r}"
proof (induction r)
  case (Seq r s)
  then show ?case
    by (auto simp: nullable_iff Cons_eq_append_conv)
next
  case (Star r)
  then show ?case
    by (auto simp: star_cons_iff)
qed auto

lemma match_here_iff: "match_here r s \<longleftrightarrow> (\<exists>u v. s = u @ v \<and> u \<in> lang r)"
proof (induction s arbitrary: r)
  case Nil
  then show ?case by (simp add: nullable_iff)
next
  case (Cons c s)
  show ?case
  proof (cases "nullable r")
    case True
    then have "[] \<in> lang r" by (simp add: nullable_iff)
    then have "\<exists>u v. c # s = u @ v \<and> u \<in> lang r" by fastforce
    with True show ?thesis by simp
  next
    case False
    then have ne: "[] \<notin> lang r" by (simp add: nullable_iff)
    show ?thesis
    proof (cases "r = Fail")
      case True
      then show ?thesis by simp
    next
      case notFail: False
      have "match_here r (c # s) \<longleftrightarrow> (\<exists>u v. s = u @ v \<and> c # u \<in> lang r)"
        using False notFail by (simp add: Cons.IH lang_deriv)
      also have "\<dots> \<longleftrightarrow> (\<exists>u v. c # s = u @ v \<and> u \<in> lang r)"
        using ne by (auto simp: Cons_eq_append_conv)
      finally show ?thesis .
    qed
  qed
qed

text \<open>\<open>search\<close> finds a match exactly when some piece of the string is in the language.\<close>

lemma search_iff: "search r s \<longleftrightarrow> (\<exists>p u v. s = p @ u @ v \<and> u \<in> lang r)"
proof (induction s)
  case Nil
  then show ?case by (simp add: nullable_iff)
next
  case (Cons c s)
  have "(\<exists>p u v. c # s = p @ u @ v \<and> u \<in> lang r) \<longleftrightarrow>
        (\<exists>u v. c # s = u @ v \<and> u \<in> lang r) \<or> (\<exists>p u v. s = p @ u @ v \<and> u \<in> lang r)"
    (is "?L \<longleftrightarrow> ?A \<or> ?B")
  proof
    assume ?L
    then obtain p u v where *: "c # s = p @ u @ v" "u \<in> lang r" by blast
    show "?A \<or> ?B"
    proof (cases p)
      case Nil
      with * show ?thesis by auto
    next
      case (Cons d p')
      with * have "s = p' @ u @ v" by simp
      with * show ?thesis by blast
    qed
  next
    assume "?A \<or> ?B"
    then show ?L
    proof
      assume ?A
      then obtain u v where "c # s = [] @ u @ v" "u \<in> lang r" by auto
      then show ?L by blast
    next
      assume ?B
      then obtain p u v where "c # s = (c # p) @ u @ v" "u \<in> lang r" by auto
      then show ?L by blast
    qed
  qed
  moreover have "search r (c # s) \<longleftrightarrow> match_here r (c # s) \<or> search r s"
    by simp
  ultimately show ?case
    by (simp only: Cons.IH match_here_iff)
qed

lemma lang_lit [simp]: "lang (lit s) = {s}"
  by (induction s) (auto simp: lit_def in_class_def)

lemma lang_seqs_Nil: "lang (seqs []) = {[]}"
  by (simp add: seqs_def)

lemma lang_seqs_Cons:
  "lang (seqs (r # rs)) = {u @ v | u v. u \<in> lang r \<and> v \<in> lang (seqs rs)}"
  by (simp add: seqs_def)

section \<open>Loops that change nothing\<close>

lemma for_loop_skip:
  "(\<And>x. x \<in> set xs \<Longrightarrow> body x s = Inr (Continue s)) \<Longrightarrow>
   for_loop body xs s = Inr (Continue s)"
  by (induction xs) simp_all

section \<open>Actions pinned by a commit hash\<close>

lemma action_version_has_at_v:
  assumes "m \<in> lang ACTION_WITH_VERSION_REGEX"
  shows "\<exists>x y. m = x @ CHR ''@'' # CHR ''v'' # y"
proof -
  from assms obtain a b c where "m = a @ ''/'' @ b @ ''@'' @ c" and "c \<in> lang VERSION_TAG"
    unfolding ACTION_WITH_VERSION_REGEX_def by (auto simp: lang_seqs_Cons lang_seqs_Nil)
  moreover from this obtain d where "c = ''v'' @ d"
    unfolding VERSION_TAG_def by (auto simp: lang_seqs_Cons lang_seqs_Nil)
  ultimately have "m = (a @ ''/'' @ b) @ CHR ''@'' # CHR ''v'' # d" by simp
  then show ?thesis by blast
qed

lemma sha_pinned_no_at_v:
  assumes "sha_pinned u"
  shows "u \<noteq> x @ CHR ''@'' # CHR ''v'' # y"
proof
  assume eq: "u = x @ CHR ''@'' # CHR ''v'' # y"
  let ?P = "\<lambda>c. c \<noteq> CHR ''@''"
  from assms obtain a ref where d: "dropWhile ?P u = a # ref" and hex: "list_all is_hex ref"
    by (auto simp: sha_pinned_def split: list.splits)
  have "a = CHR ''@''" using d hd_dropWhile[of ?P u] by auto
  have noat: "CHR ''@'' \<notin> set ref" and nov: "CHR ''v'' \<notin> set ref"
  proof -
    have "\<not> is_hex CHR ''@''" "\<not> is_hex CHR ''v''"
      by (simp_all add: is_hex_def is_digit_def)
    with hex show "CHR ''@'' \<notin> set ref" "CHR ''v'' \<notin> set ref"
      unfolding list_all_iff by blast+
  qed
  have u: "u = takeWhile ?P u @ CHR ''@'' # ref"
    using takeWhile_dropWhile_id[of ?P u] d \<open>a = CHR ''@''\<close> by simp
  have t: "CHR ''@'' \<notin> set (takeWhile ?P u)"
    by (auto dest: set_takeWhileD)
  from u eq have "takeWhile ?P u @ CHR ''@'' # ref = x @ CHR ''@'' # CHR ''v'' # y" by simp
  then show False using t noat nov
    by (auto simp: append_eq_append_conv2 Cons_eq_append_conv append_eq_Cons_conv)
qed

lemma sha_pinned_not_search:
  assumes "sha_pinned u"
  shows "\<not> search ACTION_WITH_VERSION_REGEX u"
proof
  assume "search ACTION_WITH_VERSION_REGEX u"
  then obtain p m q where "u = p @ m @ q" "m \<in> lang ACTION_WITH_VERSION_REGEX"
    by (auto simp: search_iff)
  moreover from this obtain x y where "m = x @ CHR ''@'' # CHR ''v'' # y"
    using action_version_has_at_v by blast
  ultimately have "u = (p @ x) @ CHR ''@'' # CHR ''v'' # (y @ q)" by simp
  with sha_pinned_no_at_v[OF assms] show False by blast
qed

section \<open>Unfolding the definitions\<close>

lemmas regex_defs =
  seqs_def VERSION_TAG_def SHA_HASH_def ACTION_WITH_VERSION_REGEX_def
  DANGEROUS_GITHUB_CONTEXT_VARIABLE_REGEX_def CACHE_ACTION_REGEX_def
  CONFIGURE_AWS_CREDS_ACTION_REGEX_def GH_CLI_PR_APPROVAL_REGEX_def
  lit_def plus_def opt_def seq_def alt_def in_class_def is_word_def is_digit_def

lemmas job_checks_defs =
  check_for_3p_actions_without_hash_def check_for_inline_script_def
  check_for_script_injection_def check_for_allow_unsecure_commands_def
  check_for_cache_action_usage_def check_for_self_hosted_runners_def
  check_for_aws_configure_credentials_non_oidc_def
  check_for_pull_request_create_or_approve_def

lemmas checks_defs =
  job_checks_defs check_for_dangerous_write_permissions_def check_for_pull_request_target_def
  for_jobs_def for_steps_def for_scopes_def return_passed_def verbose_print_def
  action_has_required_elements_def dangerous_scopes_def default_runners_def
  any_not_default_def non_oidc_inputs_def

section \<open>The registry\<close>

lemma check_names: "map fst checks = [''_check_for_3p_actions_without_hash'',
      ''_check_for_allow_unsecure_commands'', ''_check_for_cache_action_usage'',
      ''_check_for_dangerous_write_permissions'', ''_check_for_inline_script'',
      ''_check_for_pull_request_target'', ''_check_for_script_injection'',
      ''_check_for_self_hosted_runners'', ''_check_for_aws_configure_credentials_non_oidc'',
      ''_check_for_pull_request_create_or_approve'']"
  by (simp add: checks_def)

lemma registry:
  "lookup checks ''_check_for_3p_actions_without_hash'' = Inr FAIL"
  "lookup checks ''_check_for_allow_unsecure_commands'' = Inr FAIL"
  "lookup checks ''_check_for_cache_action_usage'' = Inr WARN"
  "lookup checks ''_check_for_dangerous_write_permissions'' = Inr FAIL"
  "lookup checks ''_check_for_inline_script'' = Inr WARN"
  "lookup checks ''_check_for_pull_request_target'' = Inr FAIL"
  "lookup checks ''_check_for_script_injection'' = Inr FAIL"
  "lookup checks ''_check_for_self_hosted_runners'' = Inr WARN"
  "lookup checks ''_check_for_aws_configure_credentials_non_oidc'' = Inr WARN"
  "lookup checks ''_check_for_pull_request_create_or_approve'' = Inr FAIL"
  "lookup methods ''_check_for_3p_actions_without_hash'' = Inr check_for_3p_actions_without_hash"
  "lookup methods ''_check_for_allow_unsecure_commands'' = Inr check_for_allow_unsecure_commands"
  "lookup methods ''_check_for_cache_action_usage'' = Inr check_for_cache_action_usage"
  "lookup methods ''_check_for_dangerous_write_permissions''
     = Inr check_for_dangerous_write_permissions"
  "lookup methods ''_check_for_inline_script'' = Inr check_for_inline_script"
  "lookup methods ''_check_for_pull_request_target'' = Inr check_for_pull_request_target"
  "lookup methods ''_check_for_script_injection'' = Inr check_for_script_injection"
  "lookup methods ''_check_for_self_hosted_runners'' = Inr check_for_self_hosted_runners"
  "lookup methods ''_check_for_aws_configure_credentials_non_oidc''
     = Inr check_for_aws_configure_credentials_non_oidc"
  "lookup methods ''_check_for_pull_request_create_or_approve''
     = Inr check_for_pull_request_create_or_approve"
  by (simp_all add: lookup_def checks_def methods_def)

text \<open>A check reads \<open>verbose\<close>, \<open>action\<close> and \<open>jobs\<close> of the analyzer and nothing else.\<close>

lemma check_cong:
  assumes "verbose a = verbose b" and "action a = action b" and "jobs a = jobs b"
  shows "check_for_3p_actions_without_hash a = check_for_3p_actions_without_hash b"
    and "check_for_allow_unsecure_commands a = check_for_allow_unsecure_commands b"
    and "check_for_cache_action_usage a = check_for_cache_action_usage b"
    and "check_for_dangerous_write_permissions a = check_for_dangerous_write_permissions b"
    and "check_for_inline_script a = check_for_inline_script b"
    and "check_for_pull_request_target a = check_for_pull_request_target b"
    and "check_for_script_injection a = check_for_script_injection b"
    and "check_for_self_hosted_runners a = check_for_self_hosted_runners b"
    and "check_for_aws_configure_credentials_non_oidc a
           = check_for_aws_configure_credentials_non_oidc b"
    and "check_for_pull_request_create_or_approve a = check_for_pull_request_create_or_approve b"
  unfolding job_checks_defs check_for_dangerous_write_permissions_def
    check_for_pull_request_target_def for_jobs_def for_steps_def verbose_print_def assms
  by (rule refl)+

lemma gate_cong:
  assumes "action a = action b" and "jobs a = jobs b"
  shows "action_has_required_elements a = action_has_required_elements b"
  unfolding action_has_required_elements_def assms by (rule refl)

text \<open>
  Every name of the registry has a level and a method, the method reads only \<open>verbose\<close>,
  \<open>action\<close> and \<open>jobs\<close>, and the name starts with an underscore.
\<close>

lemma registry_member:
  assumes "c \<in> set get_checks"
  shows "\<exists>l f. lookup checks c = Inr l \<and> lookup methods c = Inr f
      \<and> (\<forall>a b. verbose a = verbose b \<longrightarrow> action a = action b \<longrightarrow> jobs a = jobs b
             \<longrightarrow> f a = f b)
      \<and> c = CHR ''_'' # tl c"
proof -
  have names: "get_checks = [''_check_for_3p_actions_without_hash'',
      ''_check_for_allow_unsecure_commands'', ''_check_for_cache_action_usage'',
      ''_check_for_dangerous_write_permissions'', ''_check_for_inline_script'',
      ''_check_for_pull_request_target'', ''_check_for_script_injection'',
      ''_check_for_self_hosted_runners'', ''_check_for_aws_configure_credentials_non_oidc'',
      ''_check_for_pull_request_create_or_approve'']"
    by (simp add: get_checks_def checks_def)
  have "list_all (\<lambda>c. \<exists>l f. lookup checks c = Inr l \<and> lookup methods c = Inr f
      \<and> (\<forall>a b. verbose a = verbose b \<longrightarrow> action a = action b \<longrightarrow> jobs a = jobs b
             \<longrightarrow> f a = f b)
      \<and> c = CHR ''_'' # tl c) get_checks"
    unfolding names list.pred_inject
    by (intro conjI TrueI)
       ((intro exI conjI allI impI, rule registry, rule registry, rule check_cong,
         assumption+, simp)+, simp)
  with assms show ?thesis unfolding list_all_iff by blast
qed

section \<open>One round of the loop over the checks\<close>

lemma run_check_eq:
  assumes "lookup checks check = Inr l" and "lookup methods check = Inr f"
  shows "run_check self check st =
     (if (ignore_warnings self \<and> l = WARN) \<or> tl check \<in> set (ignore_checks self)
      then Inr (Continue st)
      else bindE (f self) (\<lambda>ok.
             if \<not> ok then Inr (Continue (False, snd st @ [check])) else Inr (Continue st)))"
  using assms by (simp add: run_check_def)


lemma run_check_Continue:
  "run_check self c st = Inr r \<Longrightarrow> r = Continue st \<or> r = Continue (False, snd st @ [c])"
  by (auto simp: run_check_def bindE_def split: sum.splits if_splits)

lemma run_loop_Continue:
  "for_loop (run_check self) cs st = Inr r \<Longrightarrow> \<exists>st'. r = Continue st'"
proof (induction cs arbitrary: st)
  case Nil
  then show ?case by auto
next
  case (Cons c cs)
  from Cons.prems obtain r' where r': "run_check self c st = Inr r'"
    by (cases "run_check self c st") auto
  from run_check_Continue[OF r'] obtain st1 where "r' = Continue st1" by blast
  with r' Cons.prems have "for_loop (run_check self) cs st1 = Inr r" by simp
  then show ?case by (rule Cons.IH)
qed

text \<open>A check whose name without the first character is in \<open>ignore_checks\<close> is passed over.\<close>

lemma run_loop_suppressed:
  assumes "c \<in> set get_checks" and "tl c \<in> set (ignore_checks self)"
  shows "run_check self c st = Inr (Continue st)"
proof -
  from registry_member[OF assms(1)]
  obtain l f where "lookup checks c = Inr l" "lookup methods c = Inr f"
    by blast
  with assms(2) show ?thesis by (simp add: run_check_eq)
qed

lemma run_loop_fail_checks:
  assumes "for_loop (run_check self) cs st = Inr (Continue st')"
  shows "set (snd st') \<subseteq> set (snd st) \<union> {c \<in> set cs. tl c \<notin> set (ignore_checks self)}"
  using assms
proof (induction cs arbitrary: st)
  case Nil
  then show ?case by simp
next
  case (Cons c cs)
  from Cons.prems obtain r where r: "run_check self c st = Inr r"
    by (cases "run_check self c st") auto
  from run_check_Continue[OF r] show ?case
  proof
    assume "r = Continue st"
    with r Cons.prems have "for_loop (run_check self) cs st = Inr (Continue st')" by simp
    from Cons.IH[OF this] show ?thesis by auto
  next
    assume new: "r = Continue (False, snd st @ [c])"
    have "tl c \<notin> set (ignore_checks self)"
    proof
      assume "tl c \<in> set (ignore_checks self)"
      with r new show False
        by (cases st) (auto simp: run_check_def bindE_def split: sum.splits if_splits)
    qed
    moreover from r new Cons.prems
    have "for_loop (run_check self) cs (False, snd st @ [c]) = Inr (Continue st')" by simp
    from Cons.IH[OF this]
    have "set (snd st') \<subseteq> set (snd st @ [c]) \<union> {c \<in> set cs. tl c \<notin> set (ignore_checks self)}"
      by simp
    ultimately show ?thesis by auto
  qed
qed

text \<open>
  Adding the name of \<open>X\<close> without its underscore to \<open>ignore_checks\<close> removes \<open>X\<close> from the
  failures of the loop and changes nothing else.
\<close>

lemma run_loop_suppress_one:
  assumes X: "X \<in> set get_checks"
    and ab: "verbose a = verbose b" "action a = action b" "jobs a = jobs b"
      "ignore_warnings a = ignore_warnings b" "ignore_checks b = tl X # ignore_checks a"
    and cs: "set cs \<subseteq> set get_checks"
    and run: "for_loop (run_check a) cs (p, fl) = Inr (Continue (p', fl'))"
  shows "\<exists>F. fl' = fl @ F \<and> p' = (p \<and> F = []) \<and>
           (\<forall>q gl. for_loop (run_check b) cs (q, gl)
                      = Inr (Continue (q \<and> removeAll X F = [], gl @ removeAll X F)))"
  using cs run
proof (induction cs arbitrary: p fl)
  case Nil
  then show ?case by simp
next
  case (Cons c cs)
  from Cons.prems(1) have c: "c \<in> set get_checks" and cs: "set cs \<subseteq> set get_checks"
    by simp_all
  from registry_member[OF c] obtain l f where
    l: "lookup checks c = Inr l" and f: "lookup methods c = Inr f"
    and cong: "\<And>a b. verbose a = verbose b \<Longrightarrow> action a = action b \<Longrightarrow> jobs a = jobs b
                 \<Longrightarrow> f a = f b"
    and cu: "c = CHR ''_'' # tl c"
    by blast
  from registry_member[OF X] have Xu: "X = CHR ''_'' # tl X" by blast
  have tl_eq: "tl c = tl X \<longleftrightarrow> c = X"
    using cu Xu by metis
  have fab: "f b = f a" using cong[of b a] ab by simp
  let ?skip = "(ignore_warnings a \<and> l = WARN) \<or> tl c \<in> set (ignore_checks a)"
  have ra: "run_check a c st =
     (if ?skip then Inr (Continue st)
      else bindE (f a) (\<lambda>ok.
             if \<not> ok then Inr (Continue (False, snd st @ [c])) else Inr (Continue st)))" for st
    by (rule run_check_eq[OF l f])
  have rb: "run_check b c st =
     (if ?skip \<or> c = X then Inr (Continue st)
      else bindE (f a) (\<lambda>ok.
             if \<not> ok then Inr (Continue (False, snd st @ [c])) else Inr (Continue st)))" for st
    using run_check_eq[OF l f, of b st] ab tl_eq fab by auto
  show ?case
  proof (cases "?skip \<or> f a = Inr True")
    case True
    then have a1: "run_check a c (p, fl) = Inr (Continue (p, fl))"
      and b1: "run_check b c st = Inr (Continue st)" for st
      by (auto simp: ra rb)
    from Cons.prems(2) a1 have "for_loop (run_check a) cs (p, fl) = Inr (Continue (p', fl'))"
      by simp
    from Cons.IH[OF cs this] show ?thesis by (simp add: b1)
  next
    case False
    then have ns: "\<not> ?skip" and nt: "f a \<noteq> Inr True" by simp_all
    from Cons.prems(2) ns nt have fa: "f a = Inr False"
      by (cases "f a") (auto simp: ra)
    with ns have a1: "run_check a c (p, fl) = Inr (Continue (False, fl @ [c]))"
      by (simp add: ra)
    from Cons.prems(2) a1
    have "for_loop (run_check a) cs (False, fl @ [c]) = Inr (Continue (p', fl'))"
      by simp
    from Cons.IH[OF cs this] obtain F where F: "fl' = (fl @ [c]) @ F" "p' = False"
      and Fb: "\<And>q gl. for_loop (run_check b) cs (q, gl)
                      = Inr (Continue (q \<and> removeAll X F = [], gl @ removeAll X F))"
      by auto
    show ?thesis
    proof (cases "c = X")
      case True
      have "run_check b c st = Inr (Continue st)" for st using True rb[of st] by simp
      with F Fb True show ?thesis by (intro exI[of _ "c # F"]) simp
    next
      case neq: False
      with ns fa have "run_check b c (q, gl) = Inr (Continue (False, gl @ [c]))" for q gl
        by (simp add: rb)
      with F Fb neq show ?thesis by (intro exI[of _ "c # F"]) simp
    qed
  qed
qed

lemma run_loop_all_suppressed:
  assumes "ignore_checks self = map tl get_checks"
  shows "for_loop (run_check self) get_checks st = Inr (Continue st)"
proof (rule for_loop_skip)
  fix c assume "c \<in> set get_checks"
  moreover from this assms have "tl c \<in> set (ignore_checks self)" by simp
  ultimately show "run_check self c st = Inr (Continue st)" by (rule run_loop_suppressed)
qed


section \<open>The parts of a run\<close>

lemma run_checksD:
  assumes "run_checks self doc = Inr r"
  shows "\<exists>js ok. py_getitem doc (PStr ''jobs'') = Inr js
    \<and> action_has_required_elements (self\<lparr>action := doc, jobs := js\<rparr>) = Inr ok
    \<and> (ok \<longrightarrow> for_loop (run_check (self\<lparr>action := doc, jobs := js\<rparr>)) get_checks (True, [])
           = Inr (Continue r))
    \<and> (\<not> ok \<longrightarrow> r = (True, []))"
proof -
  from assms obtain js where js: "py_getitem doc (PStr ''jobs'') = Inr js"
    by (cases "py_getitem doc (PStr ''jobs'')") (auto simp: run_checks_def)
  let ?self = "self\<lparr>action := doc, jobs := js\<rparr>"
  from assms js obtain ok where ok: "action_has_required_elements ?self = Inr ok"
    by (cases "action_has_required_elements ?self") (auto simp: run_checks_def)
  let ?loop = "for_loop (run_check ?self) get_checks (True, [])"
  have "?loop = Inr (Continue r)" if ok
  proof -
    from assms js ok that have *: "bindE ?loop (\<lambda>r.
             case r of Continue st \<Rightarrow> Inr st | Break st \<Rightarrow> Inr st | Return v \<Rightarrow> Inr (v, []))
           = Inr r"
      by (simp add: run_checks_def get_checks_def)
    then obtain r' where r': "?loop = Inr r'"
      by (cases ?loop) auto
    with run_loop_Continue[OF r'] * show ?thesis by auto
  qed
  moreover have "r = (True, [])" if "\<not> ok"
    using assms js ok that by (simp add: run_checks_def)
  ultimately show ?thesis using js ok by blast
qed

lemma run_checksI:
  assumes "py_getitem doc (PStr ''jobs'') = Inr js"
    and "action_has_required_elements (self\<lparr>action := doc, jobs := js\<rparr>) = Inr ok"
    and "ok \<Longrightarrow> for_loop (run_check (self\<lparr>action := doc, jobs := js\<rparr>)) get_checks (True, [])
           = Inr (Continue r)"
    and "\<not> ok \<Longrightarrow> r = (True, [])"
  shows "run_checks self doc = Inr r"
  using assms by (cases ok) (simp_all add: run_checks_def get_checks_def)

section \<open>The precondition gate\<close>

lemma gate_loop_False:
  "for_loop (\<lambda>job passed.
       bindE (py_getitem js job) (\<lambda>j.
       bindE (str_in ''steps'' j) (\<lambda>has_steps.
         if \<not> has_steps then Inr (Break False) else Inr (Continue passed)))) ks False = Inr r
   \<Longrightarrow> r = Continue False"
  by (induction ks) (auto simp: bindE_def split: sum.splits if_splits)

text \<open>A document that passes the gate has the three keys.\<close>

lemma gate_True_has_keys:
  assumes "action_has_required_elements self = Inr True"
  shows "all_in [''name'', ''on'', ''jobs''] (action self) = Inr True"
proof (cases "all_in [''name'', ''on'', ''jobs''] (action self)")
  case (Inl e)
  with assms show ?thesis by (simp add: action_has_required_elements_def)
next
  case (Inr b)
  show ?thesis
  proof (cases b)
    case True
    with Inr show ?thesis by simp
  next
    case False
    let ?g = "\<lambda>job passed.
       bindE (py_getitem (jobs self) job) (\<lambda>j.
       bindE (str_in ''steps'' j) (\<lambda>has_steps.
         if \<not> has_steps then Inr (Break False) else Inr (Continue passed)))"
    from assms Inr False
    have *: "bindE (py_keys (jobs self)) (\<lambda>ks. return_passed (for_loop ?g ks False)) = Inr True"
      by (simp add: action_has_required_elements_def)
    then obtain ks where ks: "py_keys (jobs self) = Inr ks"
      by (cases "py_keys (jobs self)") auto
    with * have **: "return_passed (for_loop ?g ks False) = Inr True" by simp
    then obtain r where r: "for_loop ?g ks False = Inr r"
      by (cases "for_loop ?g ks False") (auto simp: return_passed_def)
    then have "r = Continue False" by (rule gate_loop_False)
    with r ** show ?thesis by (simp add: return_passed_def)
  qed
qed

text \<open>
  When \<open>jobs\<close> is there and the gate returns \<^verbatim>\<open>False\<close>, no check runs and the run passes.
\<close>

lemma failed_gate_passes:
  assumes "py_getitem doc (PStr ''jobs'') = Inr js"
    and "action_has_required_elements (self\<lparr>action := doc, jobs := js\<rparr>) = Inr False"
  shows "run_checks self doc = Inr (True, [])"
  using assms by (simp add: run_checks_def)

text \<open>A document with no \<open>jobs\<close> never reaches the gate.\<close>

lemma missing_jobs_raises:
  assumes "map_of d (PStr ''jobs'') = None"
  shows "run_checks self (PDict d) = Inl KeyError"
  using assms by (simp add: run_checks_def)

section \<open>The script workflow\<close>

lemma script_workflow_checks:
  assumes "\<not> verbose self" and "action self = script_workflow" and "jobs self = script_jobs"
  shows "action_has_required_elements self = Inr True"
    and "check_for_3p_actions_without_hash self = Inr True"
    and "check_for_allow_unsecure_commands self = Inr True"
    and "check_for_cache_action_usage self = Inr True"
    and "check_for_dangerous_write_permissions self = Inr True"
    and "check_for_inline_script self = Inr False"
    and "check_for_pull_request_target self = Inr True"
    and "check_for_script_injection self = Inr True"
    and "check_for_self_hosted_runners self = Inr True"
    and "check_for_aws_configure_credentials_non_oidc self = Inr True"
    and "check_for_pull_request_create_or_approve self = Inr True"
  using assms
  by (simp_all add: script_workflow_def script_jobs_def checks_defs regex_defs
        eval_nat_numeral)

text \<open>Its only failure is the inline script, unless that check is suppressed.\<close>

lemma script_run:
  assumes "\<not> verbose self"
  shows "run_checks self script_workflow =
     Inr (if ignore_warnings self \<or> ''check_for_inline_script'' \<in> set (ignore_checks self)
          then (True, []) else (False, [''_check_for_inline_script'']))"
proof -
  let ?self = "self\<lparr>action := script_workflow, jobs := script_jobs\<rparr>"
  note c = script_workflow_checks[of ?self, simplified, OF assms]
  have js: "py_getitem script_workflow (PStr ''jobs'') = Inr script_jobs"
    by (simp add: script_workflow_def)
  show ?thesis
    by (simp add: run_checks_def Let_def js c check_names run_check_def registry)
qed

section \<open>Document-level permissions with no job\<close>




section \<open>The claims\<close>

text \<open>
  Claim C1. A document that fails the precondition gate (no \<open>name\<close>, no \<open>on\<close>, no \<open>jobs\<close>,
  or a job with no \<open>steps\<close>) gets an overall pass with an empty failure list. The analyzer
  reads \<^verbatim>\<open>action["jobs"]\<close> before the gate tests for the key: on a document with \<open>name\<close>
  and \<open>on\<close> and no \<open>jobs\<close> the run raises KeyError and returns no verdict.
\<close>

theorem C1_missing_jobs_raises:
  "run_checks self no_jobs_workflow = Inl KeyError"
  by (simp add: no_jobs_workflow_def run_checks_def)

text \<open>
  Claim C2. The check for AWS credentials without OIDC fails exactly when a step uses the
  credentials action and its \<open>with\<close> names an access key id or a web identity token file.
  The analyzer sets \<open>passed\<close> to \<^verbatim>\<open>False\<close> for every step that uses the action: the
  workflow below passes the gate, its only inputs are a role and a region, and the check
  fails.
\<close>

theorem C2_oidc_only_fails:
  "action_has_required_elements (self\<lparr>action := oidc_workflow, jobs := oidc_jobs\<rparr>) = Inr True
   \<and> py_getitem oidc_workflow (PStr ''jobs'') = Inr oidc_jobs
   \<and> check_for_aws_configure_credentials_non_oidc
        (self\<lparr>action := oidc_workflow, jobs := oidc_jobs\<rparr>) = Inr False"
  by (simp add: oidc_workflow_def oidc_jobs_def checks_defs regex_defs eval_nat_numeral)

text \<open>
  Claim C3. A step that lacks the field a check inspects is no match, and no check raises
  on such a document. The check for AWS credentials reads \<^verbatim>\<open>step["with"]\<close> without
  testing for the key: the workflow below passes the gate, its step uses the credentials
  action and has no \<open>with\<close>, and the check raises KeyError.
\<close>

theorem C3_missing_with_raises:
  "action_has_required_elements (self\<lparr>action := no_with_workflow, jobs := no_with_jobs\<rparr>)
     = Inr True
   \<and> py_getitem no_with_workflow (PStr ''jobs'') = Inr no_with_jobs
   \<and> check_for_aws_configure_credentials_non_oidc
        (self\<lparr>action := no_with_workflow, jobs := no_with_jobs\<rparr>) = Inl KeyError"
  by (simp add: no_with_workflow_def no_with_jobs_def checks_defs regex_defs eval_nat_numeral)

text \<open>
  Claim C4, as amended. For every name that \<open>get_checks\<close> returns, the name without its
  leading underscore in \<open>ignore_checks\<close> makes the loop pass the check over: its round
  leaves the state as it is and calls nothing, and the check is in no failure list that a
  run returns.
\<close>

theorem C4_suppressed_without_underscore:
  assumes "check \<in> set get_checks" and "tl check \<in> set (ignore_checks self)"
  shows "run_check self check st = Inr (Continue st)
       \<and> (\<forall>r. run_checks self doc = Inr r \<longrightarrow> check \<notin> set (snd r))"
proof -
  have "check \<notin> set (snd r)" if r: "run_checks self doc = Inr r" for r
  proof -
    from run_checksD[OF r]
    obtain js ok where
      loop: "ok \<Longrightarrow> for_loop (run_check (self\<lparr>action := doc, jobs := js\<rparr>)) get_checks (True, [])
           = Inr (Continue r)"
      and skip: "\<not> ok \<Longrightarrow> r = (True, [])"
      by blast
    show ?thesis
    proof (cases ok)
      case False
      with skip show ?thesis by simp
    next
      case True
      from run_loop_fail_checks[OF loop[OF True]] assms(2) show ?thesis by auto
    qed
  qed
  with run_loop_suppressed[OF assms] show ?thesis by blast
qed

theorem C4_suppressed_without_underscore_witness:
  "''_check_for_inline_script'' \<in> set get_checks
   \<and> tl ''_check_for_inline_script'' \<in> set (ignore_checks (init [''check_for_inline_script''] False False))
   \<and> run_check (init [''check_for_inline_script''] False False) ''_check_for_inline_script''
        (True, []) = Inr (Continue (True, []))
   \<and> run_checks (init [''check_for_inline_script''] False False) script_workflow = Inr (True, [])
   \<and> ''_check_for_inline_script'' \<notin> set (snd (True, [] :: string list))"
proof -
  let ?self = "init [''check_for_inline_script''] False False"
  have h1: "''_check_for_inline_script'' \<in> set get_checks"
    by (simp add: get_checks_def checks_def)
  have h2: "tl ''_check_for_inline_script'' \<in> set (ignore_checks ?self)"
    by (simp add: init_def)
  have run: "run_checks ?self script_workflow = Inr (True, [])"
    by (simp add: script_run init_def)
  from C4_suppressed_without_underscore[OF h1 h2, of "(True, [])" script_workflow] h1 h2 run
  show ?thesis by simp
qed

text \<open>
  The claim as it is written fails: with the exact string that \<open>get_checks\<close> returns in
  \<open>ignore_checks\<close>, the check for inline scripts still runs and fails.
\<close>

theorem C4_exact_id_counterexample:
  "''_check_for_inline_script'' \<in> set get_checks
   \<and> run_checks (init [''_check_for_inline_script''] False False) script_workflow
       = Inr (False, [''_check_for_inline_script''])"
  by (simp add: script_run init_def get_checks_def checks_def)

text \<open>
  Claim C5, as amended. When a run returns a verdict, the run with the name of a check
  \<open>X\<close>, without its leading underscore, added to \<open>ignore_checks\<close> returns the same failure
  list with \<open>X\<close> removed, and passes exactly when that list is empty; and the run with the
  names of all checks, without their leading underscores, in \<open>ignore_checks\<close> returns an
  overall pass with an empty failure list.
\<close>

theorem C5_suppression:
  assumes "check \<in> set get_checks"
    and "run_checks self doc = Inr (passed, fail_checks)"
  shows "run_checks (self\<lparr>ignore_checks := tl check # ignore_checks self\<rparr>) doc
           = Inr (removeAll check fail_checks = [], removeAll check fail_checks)
       \<and> run_checks (self\<lparr>ignore_checks := map tl get_checks\<rparr>) doc = Inr (True, [])"
proof -
  from run_checksD[OF assms(2)]
  obtain js ok where js: "py_getitem doc (PStr ''jobs'') = Inr js"
    and gate: "action_has_required_elements (self\<lparr>action := doc, jobs := js\<rparr>) = Inr ok"
    and loop: "ok \<Longrightarrow> for_loop (run_check (self\<lparr>action := doc, jobs := js\<rparr>)) get_checks (True, [])
           = Inr (Continue (passed, fail_checks))"
    and skip: "\<not> ok \<Longrightarrow> (passed, fail_checks) = (True, [])"
    by blast
  let ?a = "self\<lparr>action := doc, jobs := js\<rparr>"
  let ?b = "self\<lparr>ignore_checks := tl check # ignore_checks self\<rparr>\<lparr>action := doc, jobs := js\<rparr>"
  let ?c = "self\<lparr>ignore_checks := map tl get_checks\<rparr>\<lparr>action := doc, jobs := js\<rparr>"
  have gb: "action_has_required_elements ?b = Inr ok"
    and gc: "action_has_required_elements ?c = Inr ok"
    using gate gate_cong[of ?b ?a] gate_cong[of ?c ?a] by simp_all
  have "run_checks (self\<lparr>ignore_checks := tl check # ignore_checks self\<rparr>) doc
           = Inr (removeAll check fail_checks = [], removeAll check fail_checks)"
  proof (rule run_checksI[OF js gb])
    assume ok
    from run_loop_suppress_one[OF assms(1) _ _ _ _ _ subset_refl loop[OF \<open>ok\<close>], of ?b]
    show "for_loop (run_check ?b) get_checks (True, [])
           = Inr (Continue (removeAll check fail_checks = [], removeAll check fail_checks))"
      by auto
  next
    assume "\<not> ok"
    with skip show "(removeAll check fail_checks = [], removeAll check fail_checks) = (True, [])"
      by simp
  qed
  moreover have "run_checks (self\<lparr>ignore_checks := map tl get_checks\<rparr>) doc = Inr (True, [])"
    by (rule run_checksI[OF js gc]) (simp_all add: run_loop_all_suppressed)
  ultimately show ?thesis by simp
qed

theorem C5_suppression_witness:
  "''_check_for_inline_script'' \<in> set get_checks
   \<and> run_checks (init [] False False) script_workflow = Inr (False, [''_check_for_inline_script''])
   \<and> run_checks ((init [] False False)\<lparr>ignore_checks := [''check_for_inline_script'']\<rparr>)
        script_workflow = Inr (True, [])
   \<and> run_checks ((init [] False False)\<lparr>ignore_checks := map tl get_checks\<rparr>) script_workflow
        = Inr (True, [])"
proof -
  have h1: "''_check_for_inline_script'' \<in> set get_checks"
    by (simp add: get_checks_def checks_def)
  have h2: "run_checks (init [] False False) script_workflow
              = Inr (False, [''_check_for_inline_script''])"
    by (simp add: script_run init_def)
  from C5_suppression[OF h1 h2] h1 h2 show ?thesis
    by (simp add: init_def)
qed

text \<open>
  The claim as it is written fails: with every string that \<open>get_checks\<close> returns in
  \<open>ignore_checks\<close>, the run on the script workflow still fails.
\<close>

theorem C5_all_ids_counterexample:
  "run_checks (init get_checks False False) script_workflow
     = Inr (False, [''_check_for_inline_script''])"
  by (simp add: script_run init_def get_checks_def checks_def)

text \<open>
  Claim C6. When the document-level \<open>permissions\<close> is the literal \<^verbatim>\<open>write-all\<close>, the check
  for dangerous write permissions fails, whatever the jobs are.
\<close>

theorem C6_write_all_fails:
  assumes "action self = PDict d"
    and "map_of d (PStr ''permissions'') = Some (PStr ''write-all'')"
  shows "check_for_dangerous_write_permissions self = Inr False"
  using assms by (simp add: check_for_dangerous_write_permissions_def)

theorem C6_write_all_fails_witness:
  "action ((init [] False False)\<lparr>action := PDict write_all_entries, jobs := script_jobs\<rparr>)
     = PDict write_all_entries
   \<and> map_of write_all_entries (PStr ''permissions'') = Some (PStr ''write-all'')
   \<and> check_for_dangerous_write_permissions
        ((init [] False False)\<lparr>action := PDict write_all_entries, jobs := script_jobs\<rparr>)
       = Inr False"
proof -
  let ?self = "(init [] False False)\<lparr>action := PDict write_all_entries, jobs := script_jobs\<rparr>"
  have h1: "action ?self = PDict write_all_entries" by simp
  have h2: "map_of write_all_entries (PStr ''permissions'') = Some (PStr ''write-all'')"
    by (simp add: write_all_entries_def)
  from C6_write_all_fails[OF h1 h2] h1 h2 show ?thesis by simp
qed

text \<open>
  Claim C7. When \<open>jobs\<close> is a mapping of jobs, each with a sequence of steps, and every
  step that has a \<open>uses\<close> names its action by a 40-digit hexadecimal commit hash after the
  \<^verbatim>\<open>@\<close>, the check for third-party actions without a hash passes.
\<close>

theorem C7_sha_pinned_passes:
  assumes "jobs_steps_all step_uses_pinned (jobs self)"
  shows "check_for_3p_actions_without_hash self = Inr True"
proof -
  from assms obtain m where m: "jobs self = PDict m"
    and all: "list_all (\<lambda>kj. job_steps_all step_uses_pinned (snd kj)) m"
    by (cases "jobs self") auto
  let ?body = "\<lambda>step passed.
          bindE (str_in ''uses'' step) (\<lambda>has_uses.
            if has_uses then
              bindE (py_getitem step (PStr ''uses'')) (\<lambda>uses.
              bindE (re_search ACTION_WITH_VERSION_REGEX uses) (\<lambda>found.
                if found then Inr (Break False) else Inr (Continue passed)))
            else Inr (Continue passed))"
  have step: "?body step passed = Inr (Continue passed)" if "step_uses_pinned step"
    for step passed
  proof -
    from that obtain sd where sd: "step = PDict sd" by (cases step) auto
    show ?thesis
    proof (cases "map_of sd (PStr ''uses'')")
      case None
      then show ?thesis by (simp add: sd)
    next
      case (Some v)
      with that sd obtain u where "v = PStr u" "sha_pinned u"
        by (cases v) auto
      with Some show ?thesis
        by (simp add: sd sha_pinned_not_search)
    qed
  qed
  have job: "for_steps self ?body job True = Inr (Continue True)"
    if "job \<in> set (map fst m)" for job
  proof -
    from that obtain j where j: "map_of m job = Some j"
      by (cases "map_of m job") (auto simp: map_of_eq_None_iff)
    then have "(job, j) \<in> set m" by (rule map_of_SomeD)
    with all have "job_steps_all step_uses_pinned j" by (auto simp: list_all_iff)
    then obtain jd steps
      where jd: "j = PDict jd" "map_of jd (PStr ''steps'') = Some (PList steps)"
      and steps: "list_all step_uses_pinned steps"
      by (cases j) (auto split: option.splits pyval.splits)
    have "for_loop ?body steps True = Inr (Continue True)"
      by (rule for_loop_skip) (use steps step in \<open>auto simp: list_all_iff\<close>)
    then show ?thesis by (simp add: for_steps_def m j jd)
  qed
  have "for_loop (for_steps self ?body) (map fst m) True = Inr (Continue True)"
    by (rule for_loop_skip) (rule job)
  then show ?thesis
    by (simp add: check_for_3p_actions_without_hash_def return_passed_def for_jobs_def m)
qed


theorem C7_sha_pinned_passes_witness:
  "jobs_steps_all step_uses_pinned (jobs ((init [] False False)\<lparr>jobs := script_jobs\<rparr>))
   \<and> check_for_3p_actions_without_hash ((init [] False False)\<lparr>jobs := script_jobs\<rparr>) = Inr True"
proof -
  have h: "jobs_steps_all step_uses_pinned (jobs ((init [] False False)\<lparr>jobs := script_jobs\<rparr>))"
    by (simp add: script_jobs_def sha_pinned_def is_hex_def is_digit_def)
  from h C7_sha_pinned_passes [OF h] show ?thesis by simp
qed



text \<open>
  Claim C9. On a document that passes the gate, the check for \<open>pull_request_target\<close>
  returns, and it fails exactly when the trigger is the string \<open>pull_request_target\<close>, a
  sequence that contains it, or a mapping that has it as a key.
\<close>

theorem C9_pull_request_target:
  assumes "action_has_required_elements self = Inr True" and "action self = PDict d"
  shows "\<exists>t. map_of d (PStr ''on'') = Some t \<and>
           (check_for_pull_request_target self = Inr False \<longleftrightarrow>
              t = PStr ''pull_request_target''
              \<or> (\<exists>xs. t = PList xs \<and> PStr ''pull_request_target'' \<in> set xs)
              \<or> (\<exists>m. t = PDict m \<and> PStr ''pull_request_target'' \<in> fst ` set m)) \<and>
           (check_for_pull_request_target self = Inr False
              \<or> check_for_pull_request_target self = Inr True)"
proof -
  from assms have "all_in [''name'', ''on'', ''jobs''] (PDict d) = Inr True"
    using gate_True_has_keys by fastforce
  then obtain t where t: "map_of d (PStr ''on'') = Some t"
    by (auto simp: bindE_def split: if_splits)
  have "(check_for_pull_request_target self = Inr False \<longleftrightarrow>
              t = PStr ''pull_request_target''
              \<or> (\<exists>xs. t = PList xs \<and> PStr ''pull_request_target'' \<in> set xs)
              \<or> (\<exists>m. t = PDict m \<and> PStr ''pull_request_target'' \<in> fst ` set m))"
    using t assms(2)
    by (cases t) (simp_all add: check_for_pull_request_target_def map_of_eq_None_iff)
  moreover have "check_for_pull_request_target self = Inr False
              \<or> check_for_pull_request_target self = Inr True"
    using t assms(2)
    by (cases t) (auto simp add: check_for_pull_request_target_def)
  ultimately show ?thesis using t by blast
qed

theorem C9_pull_request_target_witness:
  "action_has_required_elements
      ((init [] False False)\<lparr>action := PDict labeler_entries, jobs := script_jobs\<rparr>) = Inr True
   \<and> action ((init [] False False)\<lparr>action := PDict labeler_entries, jobs := script_jobs\<rparr>)
       = PDict labeler_entries
   \<and> (\<exists>t. map_of labeler_entries (PStr ''on'') = Some t
         \<and> (\<exists>m. t = PDict m \<and> PStr ''pull_request_target'' \<in> fst ` set m))
   \<and> check_for_pull_request_target
        ((init [] False False)\<lparr>action := PDict labeler_entries, jobs := script_jobs\<rparr>)
       = Inr False"
proof -
  let ?self = "(init [] False False)\<lparr>action := PDict labeler_entries, jobs := script_jobs\<rparr>"
  have h1: "action_has_required_elements ?self = Inr True"
    by (simp add: action_has_required_elements_def return_passed_def labeler_entries_def
          script_jobs_def)
  have h2: "action ?self = PDict labeler_entries" by simp
  have on: "map_of labeler_entries (PStr ''on'')
              = Some (PDict [(PStr ''pull_request_target'',
                              PDict [(PStr ''types'', PList [PStr ''opened''])])])"
    by (simp add: labeler_entries_def)
  from C9_pull_request_target[OF h1 h2] on
  have "check_for_pull_request_target ?self = Inr False" by simp
  with h1 h2 on show ?thesis by simp
qed




end
